theory Spec2Isabelle
  imports Complex_Main
begin

section \<open>Black-Scholes call pricing and the implied-volatility solver of project.py\<close>

text \<open>
  Python floats and numpy float64 values are modelled as the real numbers: rounding,
  overflow, infinities and NaN are outside this model.  An operation whose real result
  is undefined (a division by zero, the logarithm of a non-positive number, the square
  root of a negative number), where Python raises or numpy yields a non-finite value,
  is an error value of the model.  A loop that may run forever yields \<open>None\<close>.
\<close>

datatype num_error = ZeroDivision | MathDomain

subsection \<open>The library functions: \<open>scipy.stats.norm.pdf\<close> and \<open>norm.cdf\<close>\<close>

text \<open>
  Both are library functions, modelled by the functions they compute.  \<open>norm.pdf\<close> is
  the standard normal density.
\<close>

definition phi :: "real \<Rightarrow> real" where
  "phi x = exp (- (x\<^sup>2) / 2) / sqrt (2 * pi)"

text \<open>
  \<open>norm.cdf\<close> is the standard normal cumulative distribution function, here by its
  power series about \<open>0\<close>: the antiderivative of \<open>phi\<close> that is \<open>1/2\<close> at
  \<open>0\<close> (lemmas \<open>Phi_deriv\<close> and \<open>Phi_0\<close> below).
\<close>

definition Phi :: "real \<Rightarrow> real" where
  "Phi x = 1 / 2 +
     (\<Sum>k. (- 1) ^ k * x ^ (2 * k + 1) / (2 ^ k * fact k * real (2 * k + 1))) / sqrt (2 * pi)"

subsection \<open>The pricing model: \<open>d\<close> and \<open>call\<close>\<close>

text \<open>
  \<open>d1 = ( log(P/X) + (r + s**2 / 2)*T ) / (s * sqrt(T))\<close>, evaluated in Python's order:
  the quotient \<open>P/X\<close>, its logarithm, the square root of \<open>T\<close>, then the division.
\<close>

definition d :: "real \<Rightarrow> real \<Rightarrow> real \<Rightarrow> real \<Rightarrow> real \<Rightarrow> num_error + real \<times> real" where
  "d P X T r s =
     (if X = 0 then Inl ZeroDivision
      else if P / X \<le> 0 then Inl MathDomain
      else if T < 0 then Inl MathDomain
      else if s * sqrt T = 0 then Inl ZeroDivision
      else
        let d1 = (ln (P / X) + (r + s\<^sup>2 / 2) * T) / (s * sqrt T);
            d2 = d1 - s * sqrt T
        in Inr (d1, d2))"

definition call :: "real \<Rightarrow> real \<Rightarrow> real \<Rightarrow> real \<Rightarrow> real \<Rightarrow> num_error + real" where
  "call P X T r s =
     (case d P X T r s of
        Inl e \<Rightarrow> Inl e
      | Inr (d1, d2) \<Rightarrow> Inr (P * Phi d1 - X * exp (- r * T) * Phi d2))"

subsection \<open>The solver: \<open>call_iv\<close>\<close>

text \<open>Python's \<open>range(start, stop, step)\<close> for a positive step.\<close>

definition py_range :: "int \<Rightarrow> int \<Rightarrow> int \<Rightarrow> int list" where
  "py_range start stop step =
     map (\<lambda>k. start + int k * step) [0 ..< nat ((stop - start + step - 1) div step)]"

text \<open>\<open>s_list = [x * 0.005 for x in range(10, 300, 5)]\<close>\<close>

definition s_list :: "real list" where
  "s_list = map (\<lambda>x. real_of_int x * 0.005) (py_range 10 300 5)"

definition good_bound :: real where
  "good_bound = 0.000001"

definition bad_bound :: real where
  "bad_bound = 100"

text \<open>
  One pass through the \<open>while\<close> loop, from the test of its condition to the end of
  its body, for the current values of \<open>s\<close> and \<open>err\<close>: the loop is left
  (\<open>Exit success s\<close>: by the condition with \<open>success\<close> still true, or by a
  \<open>break\<close> with \<open>success = False\<close>), it goes round again with new values
  (\<open>Again s err\<close>), or an operation fails (\<open>Fail e\<close>): one of the two pricing
  calls, or the division \<open>diff / vega\<close> by zero.
\<close>

datatype pass = Exit bool real | Again real real | Fail num_error

definition loop_pass :: "real \<Rightarrow> real \<Rightarrow> real \<Rightarrow> real \<Rightarrow> real \<Rightarrow> real \<Rightarrow> real \<Rightarrow> pass" where
  "loop_pass P X T r C s err =
     (if err \<ge> good_bound then
        if err \<ge> bad_bound \<or> s \<le> 0 then Exit False s
        else
          (case call P X T r s of
             Inl e \<Rightarrow> Fail e
           | Inr c \<Rightarrow>
               (let diff = c - C in
                (case d P X T r s of
                   Inl e \<Rightarrow> Fail e
                 | Inr (d1, d2) \<Rightarrow>
                     (let vega = P * phi d1 * sqrt T in
                      if vega < 0.001 then Exit False s
                      else if vega = 0 then Fail ZeroDivision
                      else Again (s - diff / vega) \<bar>diff\<bar>))))
      else Exit True s)"

text \<open>The \<open>while\<close> loop for one guess; its result is \<open>(success, s)\<close>.\<close>

partial_function (option) newton ::
  "real \<Rightarrow> real \<Rightarrow> real \<Rightarrow> real \<Rightarrow> real \<Rightarrow> real \<Rightarrow> real \<Rightarrow> (num_error + bool \<times> real) option" where
  "newton P X T r C s err =
     (case loop_pass P X T r C s err of
        Exit success s' \<Rightarrow> Some (Inr (success, s'))
      | Again s' err' \<Rightarrow> newton P X T r C s' err'
      | Fail e \<Rightarrow> Some (Inl e))"

text \<open>
  The \<open>for\<close> loop over the guesses: each guess starts with \<open>err = 1\<close>; the first
  guess whose loop ends with \<open>success\<close> returns its \<open>s\<close>; after the last guess
  the function returns \<open>0\<close>.
\<close>

fun guesses :: "real \<Rightarrow> real \<Rightarrow> real \<Rightarrow> real \<Rightarrow> real \<Rightarrow> real list \<Rightarrow> (num_error + real) option" where
  "guesses P X T r C [] = Some (Inr 0)"
| "guesses P X T r C (s # ss) =
     (case newton P X T r C s 1 of
        None \<Rightarrow> None
      | Some (Inl e) \<Rightarrow> Some (Inl e)
      | Some (Inr (success, s')) \<Rightarrow>
          if success then Some (Inr s') else guesses P X T r C ss)"

definition call_iv :: "real \<Rightarrow> real \<Rightarrow> real \<Rightarrow> real \<Rightarrow> real \<Rightarrow> (num_error + real) option" where
  "call_iv P X T r C = guesses P X T r C s_list"

subsection \<open>Names for the values the solver works with\<close>

text \<open>The price \<open>call\<close> returns, where it returns one.\<close>

definition price :: "real \<Rightarrow> real \<Rightarrow> real \<Rightarrow> real \<Rightarrow> real \<Rightarrow> real" where
  "price P X T r s = projr (call P X T r s)"

text \<open>The value of the solver's local variable \<open>vega\<close> at the candidate \<open>s\<close>.\<close>

definition vega :: "real \<Rightarrow> real \<Rightarrow> real \<Rightarrow> real \<Rightarrow> real \<Rightarrow> real" where
  "vega P X T r s = P * phi (fst (projr (d P X T r s))) * sqrt T"

subsection \<open>Auxiliary definitions for the proofs\<close>

text \<open>The series of \<open>Phi\<close> is \<open>x\<close> times a power series in \<open>x\<^sup>2\<close>.\<close>

definition Phi_coeff :: "nat \<Rightarrow> real" where
  "Phi_coeff k = (- 1) ^ k / (2 ^ k * fact k * real (2 * k + 1))"

definition Phi_series :: "real \<Rightarrow> real" where
  "Phi_series y = (\<Sum>k. Phi_coeff k * y ^ k)"

text \<open>The first component \<open>d\<close> returns, and the price, as functions on all reals.\<close>

definition d1_at :: "real \<Rightarrow> real \<Rightarrow> real \<Rightarrow> real \<Rightarrow> real \<Rightarrow> real" where
  "d1_at P X T r s = (ln (P / X) + (r + s\<^sup>2 / 2) * T) / (s * sqrt T)"

definition price_at :: "real \<Rightarrow> real \<Rightarrow> real \<Rightarrow> real \<Rightarrow> real \<Rightarrow> real" where
  "price_at P X T r s =
     P * Phi (d1_at P X T r s) - X * exp (- r * T) * Phi (d1_at P X T r s - s * sqrt T)"

text \<open>
  An example: \<open>P = X = 2\<close>, \<open>T = 1/2500\<close>, \<open>r = 1/800\<close> and the observed price
  \<open>0.0000007\<close>.  \<open>ex_t\<close> is the second candidate of the loop for the first guess.
\<close>

definition ex_d1 :: "real \<Rightarrow> real" where
  "ex_d1 u = d1_at 2 2 (1 / 2500) (1 / 800) u"

definition ex_price :: "real \<Rightarrow> real" where
  "ex_price u = price_at 2 2 (1 / 2500) (1 / 800) u"

definition ex_vega :: "real \<Rightarrow> real" where
  "ex_vega u = phi (ex_d1 u) / 25"

definition ex_t :: real where
  "ex_t = 1 / 20 - (ex_price (1 / 20) - 7 / 10 ^ 7) / ex_vega (1 / 20)"






section \<open>The list of guesses\<close>

lemma py_range_10_300_5: "py_range 10 300 5 = map (\<lambda>k. 10 + 5 * int k) [0 ..< 58]"
  by (simp add: py_range_def mult.commute)

lemma s_list_closed: "s_list = map (\<lambda>k. 0.05 + 0.025 * real k) [0 ..< 58]"
  by (simp add: s_list_def py_range_10_300_5 algebra_simps)

lemma s_list_pos: "g \<in> set s_list \<Longrightarrow> 0 < g"
  by (auto simp: s_list_closed)

lemma s_list_Cons: "s_list = 5 / 100 # tl s_list"
  by (simp add: s_list_closed upt_conv_Cons)

lemma s_list_Cons2: "s_list = [5 / 100] @ 75 / 1000 # drop 2 s_list"
  by (simp add: s_list_closed upt_conv_Cons drop_map)

section \<open>The pricing model on valid inputs\<close>

lemma d_valid:
  assumes "0 < P" "0 < X" "0 < T" "0 < s"
  shows "d P X T r s =
    Inr ((ln (P / X) + (r + s\<^sup>2 / 2) * T) / (s * sqrt T),
         (ln (P / X) + (r + s\<^sup>2 / 2) * T) / (s * sqrt T) - s * sqrt T)"
proof -
  have "0 < P / X" using assms by simp
  then have "\<not> P / X \<le> 0" by linarith
  moreover have "s * sqrt T \<noteq> 0" using assms by simp
  ultimately show ?thesis using assms by (simp add: d_def Let_def)
qed

lemma call_valid:
  assumes "0 < P" "0 < X" "0 < T" "0 < s"
  shows "call P X T r s = Inr (price P X T r s)"
  by (simp add: price_def call_def d_valid [OF assms])

lemma price_valid:
  assumes "0 < P" "0 < X" "0 < T" "0 < s"
  shows "price P X T r s =
     P * Phi ((ln (P / X) + (r + s\<^sup>2 / 2) * T) / (s * sqrt T)) -
     X * exp (- r * T) * Phi ((ln (P / X) + (r + s\<^sup>2 / 2) * T) / (s * sqrt T) - s * sqrt T)"
  by (simp add: price_def call_def d_valid [OF assms])

lemma vega_valid:
  assumes "0 < P" "0 < X" "0 < T" "0 < s"
  shows "vega P X T r s = P * phi ((ln (P / X) + (r + s\<^sup>2 / 2) * T) / (s * sqrt T)) * sqrt T"
  by (simp add: vega_def d_valid [OF assms])

lemma price_at_eq:
  assumes "0 < P" "0 < X" "0 < T" "0 < s"
  shows "price P X T r s = price_at P X T r s"
  by (simp add: price_valid [OF assms] price_at_def d1_at_def)

lemma vega_at_eq:
  assumes "0 < P" "0 < X" "0 < T" "0 < s"
  shows "vega P X T r s = P * phi (d1_at P X T r s) * sqrt T"
  by (simp add: vega_valid [OF assms] d1_at_def)

section \<open>One pass of the loop, the loop, and the search over the guesses\<close>

lemma good_le_1: "good_bound \<le> 1" and one_less_bad: "1 < bad_bound"
  by (simp_all add: good_bound_def bad_bound_def)

lemma loop_pass_valid:
  assumes "0 < P" "0 < X" "0 < T"
  shows "loop_pass P X T r C s err =
     (if err \<ge> good_bound then
        if err \<ge> bad_bound \<or> s \<le> 0 then Exit False s
        else if vega P X T r s < 0.001 then Exit False s
        else Again (s - (price P X T r s - C) / vega P X T r s) \<bar>price P X T r s - C\<bar>
      else Exit True s)"
proof (cases "0 < s")
  case True
  note dv = d_valid [OF assms True, of r]
  have v: "vega P X T r s = P * phi ((ln (P / X) + (r + s\<^sup>2 / 2) * T) / (s * sqrt T)) * sqrt T"
    by (simp add: vega_def dv)
  show ?thesis
    unfolding loop_pass_def call_valid [OF assms True] v dv
    by (simp add: Let_def)
next
  case False
  then show ?thesis by (simp add: loop_pass_def)
qed

lemma newton_exit:
  "loop_pass P X T r C s err = Exit b s' \<Longrightarrow> newton P X T r C s err = Some (Inr (b, s'))"
  by (subst newton.simps) simp

lemma newton_again:
  "loop_pass P X T r C s err = Again s' err' \<Longrightarrow>
     newton P X T r C s err = newton P X T r C s' err'"
  by (subst newton.simps) simp

lemma newton_induct [consumes 1, case_names exit again fail]:
  assumes run: "newton P X T r C s err = Some y"
    and exit: "\<And>s err b s'. loop_pass P X T r C s err = Exit b s' \<Longrightarrow> y = Inr (b, s') \<Longrightarrow> Q s err"
    and again: "\<And>s err s' err'. loop_pass P X T r C s err = Again s' err' \<Longrightarrow> Q s' err' \<Longrightarrow> Q s err"
    and fail: "\<And>s err e. loop_pass P X T r C s err = Fail e \<Longrightarrow> y = Inl e \<Longrightarrow> Q s err"
  shows "Q s err"
proof -
  define R :: "(((((real \<times> real) \<times> real) \<times> real) \<times> real) \<times> real) \<times> real \<Rightarrow> num_error + bool \<times> real \<Rightarrow> bool"
    where "R = (\<lambda>t y'. case t of ((((((P', X'), T'), r'), C'), s), err) \<Rightarrow>
      P' = P \<longrightarrow> X' = X \<longrightarrow> T' = T \<longrightarrow> r' = r \<longrightarrow> C' = C \<longrightarrow> y' = y \<longrightarrow> Q s err)"
  have "R ((((((P, X), T), r), C), s), err) y"
  proof (rule newton.raw_induct [OF _ run])
    fix nw P' X' T' r' C' s err y'
    assume IH: "\<And>P' X' T' r' C' s err y'. nw P' X' T' r' C' s err = Some y' \<Longrightarrow>
        R ((((((P', X'), T'), r'), C'), s), err) y'"
      and eq: "(case loop_pass P' X' T' r' C' s err of
                  Exit success s' \<Rightarrow> Some (Inr (success, s'))
                | Again s' err' \<Rightarrow> nw P' X' T' r' C' s' err'
                | Fail e \<Rightarrow> Some (Inl e)) = Some y'"
    have "Q s err" if eqs: "P' = P" "X' = X" "T' = T" "r' = r" "C' = C" "y' = y"
    proof (cases "loop_pass P X T r C s err")
      case (Exit b s')
      with eq eqs show ?thesis by (auto intro: exit)
    next
      case (Again s' err')
      with eq eqs have "nw P X T r C s' err' = Some y" by simp
      from IH [OF this] have "Q s' err'" by (simp add: R_def)
      with Again show ?thesis by (rule again)
    next
      case (Fail e)
      with eq eqs show ?thesis by (auto intro: fail)
    qed
    then show "R ((((((P', X'), T'), r'), C'), s), err) y'" by (simp add: R_def)
  qed
  then show ?thesis by (simp add: R_def)
qed

lemma newton_no_error:
  assumes "0 < P" "0 < X" "0 < T"
  shows "newton P X T r C s err \<noteq> Some (Inl e)"
proof
  assume "newton P X T r C s err = Some (Inl e)"
  then show False
  proof (induction rule: newton_induct)
    case (fail s err e')
    then show ?case by (simp add: loop_pass_valid [OF assms] split: if_splits)
  qed simp_all
qed


lemma newton_converged:
  assumes v: "0 < P" "0 < X" "0 < T"
    and pass: "good_bound \<le> err" "err < bad_bound" "0 < s" "0.001 \<le> vega P X T r s"
    and small: "\<bar>price P X T r s - C\<bar> < good_bound"
  shows "newton P X T r C s err =
           Some (Inr (True, s - (price P X T r s - C) / vega P X T r s))"
proof -
  let ?s' = "s - (price P X T r s - C) / vega P X T r s"
  let ?e' = "\<bar>price P X T r s - C\<bar>"
  have 1: "loop_pass P X T r C s err = Again ?s' ?e'"
    using pass by (simp add: loop_pass_valid [OF v])
  have 2: "loop_pass P X T r C ?s' ?e' = Exit True ?s'"
    using small by (simp add: loop_pass_valid [OF v])
  show ?thesis
    by (simp only: newton_again [OF 1] newton_exit [OF 2])
qed

lemma newton_explosion:
  assumes v: "0 < P" "0 < X" "0 < T"
    and pass: "good_bound \<le> err" "err < bad_bound" "0 < s" "0.001 \<le> vega P X T r s"
    and big: "bad_bound \<le> \<bar>price P X T r s - C\<bar>"
  shows "loop_pass P X T r C s err =
           Again (s - (price P X T r s - C) / vega P X T r s) \<bar>price P X T r s - C\<bar>"
    and "newton P X T r C s err =
           Some (Inr (False, s - (price P X T r s - C) / vega P X T r s))"
proof -
  let ?s' = "s - (price P X T r s - C) / vega P X T r s"
  let ?e' = "\<bar>price P X T r s - C\<bar>"
  show 1: "loop_pass P X T r C s err = Again ?s' ?e'"
    using pass by (simp add: loop_pass_valid [OF v])
  have "good_bound \<le> ?e'" using big by (simp add: good_bound_def bad_bound_def)
  with big have 2: "loop_pass P X T r C ?s' ?e' = Exit False ?s'"
    by (simp add: loop_pass_valid [OF v])
  show "newton P X T r C s err = Some (Inr (False, ?s'))"
    by (simp only: newton_again [OF 1] newton_exit [OF 2])
qed


lemma guesses_all_fail:
  "\<forall>g \<in> set gs. \<exists>s'. newton P X T r C g 1 = Some (Inr (False, s')) \<Longrightarrow>
     guesses P X T r C gs = Some (Inr 0)"
  by (induction gs) auto

lemma guesses_first_success:
  "\<forall>g \<in> set pre. \<exists>s'. newton P X T r C g 1 = Some (Inr (False, s')) \<Longrightarrow>
   newton P X T r C g 1 = Some (Inr (True, v)) \<Longrightarrow>
     guesses P X T r C (pre @ g # post) = Some (Inr v)"
  by (induction pre) auto


lemma guesses_no_error:
  assumes "0 < P" "0 < X" "0 < T"
  shows "guesses P X T r C gs \<noteq> Some (Inl e)"
  using newton_no_error [OF assms]
  by (induction gs) (auto split: option.splits sum.splits if_splits)


lemma call_iv_first_guess:
  assumes "newton P X T r C (5 / 100) 1 = Some (Inr (True, v))"
  shows "call_iv P X T r C = Some (Inr v)"
proof -
  have h: "guesses P X T r C (5 / 100 # tl s_list) = Some (Inr v)"
    using assms by simp
  show ?thesis unfolding call_iv_def by (subst s_list_Cons) (rule h)
qed

section \<open>Bounds on the exponential and the density\<close>

lemma phi_pos: "0 < phi x"
  by (simp add: phi_def)

lemma sqrt_2pi_gt_1: "1 < sqrt (2 * pi)"
proof -
  have "1 < 2 * pi" using pi_ge_two by linarith
  then show ?thesis by simp
qed

lemma sqrt_2pi_ge_2: "2 \<le> sqrt (2 * pi)"
proof -
  have "2\<^sup>2 \<le> 2 * pi" using pi_ge_two by simp
  then have "sqrt (2\<^sup>2) \<le> sqrt (2 * pi)" by (simp only: real_sqrt_le_iff)
  then show ?thesis by simp
qed

lemma sqrt_2pi_less_3: "sqrt (2 * pi) < 3"
proof -
  have "2 * pi < 3\<^sup>2" using pi_less_4 by simp
  then have "sqrt (2 * pi) < sqrt (3\<^sup>2)" by (simp only: real_sqrt_less_iff)
  then show ?thesis by simp
qed

lemma pi_ge_3: "3 \<le> pi"
proof -
  have "sin (pi / 6) \<le> pi / 6" by (rule sin_x_le_x) simp
  then show ?thesis by (simp add: sin_30)
qed

lemma sqrt_2pi_bounds: "2449 / 1000 \<le> sqrt (2 * pi)" "sqrt (2 * pi) \<le> 2829 / 1000"
proof -
  have "(2449 / 1000)\<^sup>2 \<le> 2 * pi" using pi_ge_3 by (simp add: power2_eq_square)
  then show "2449 / 1000 \<le> sqrt (2 * pi)" by (rule real_le_rsqrt)
  have "2 * pi \<le> (2829 / 1000)\<^sup>2" using pi_less_4 by (simp add: power2_eq_square)
  then show "sqrt (2 * pi) \<le> 2829 / 1000" by (intro real_le_lsqrt) auto
qed

lemma phi_less_1: "phi x < 1"
proof -
  have "exp (- (x\<^sup>2) / 2) \<le> 1" by simp
  then have "exp (- (x\<^sup>2) / 2) < sqrt (2 * pi)" using sqrt_2pi_gt_1 by linarith
  then show ?thesis by (simp add: phi_def)
qed

lemma phi_lower: "(1 - x\<^sup>2 / 2) / 3 \<le> phi x"
proof (cases "0 \<le> 1 - x\<^sup>2 / 2")
  case True
  have e: "1 - x\<^sup>2 / 2 \<le> exp (- (x\<^sup>2) / 2)"
    using exp_ge_add_one_self [of "- (x\<^sup>2) / 2"] by simp
  have "(1 - x\<^sup>2 / 2) / 3 \<le> (1 - x\<^sup>2 / 2) / sqrt (2 * pi)"
    using True sqrt_2pi_less_3 sqrt_2pi_gt_1 by (intro divide_left_mono) auto
  also have "\<dots> \<le> exp (- (x\<^sup>2) / 2) / sqrt (2 * pi)"
    using e sqrt_2pi_gt_1 by (intro divide_right_mono) auto
  finally show ?thesis by (simp add: phi_def)
next
  case False
  then have "(1 - x\<^sup>2 / 2) / 3 \<le> 0" by simp
  also have "0 \<le> phi x" using phi_pos [of x] by simp
  finally show ?thesis .
qed

lemma exp_nat_lower: "2 ^ n \<le> exp (real n)"
proof -
  have "(2::real) \<le> exp 1" using exp_ge_add_one_self [of 1] by simp
  then have "(2::real) ^ n \<le> exp 1 ^ n" by (intro power_mono) auto
  then show ?thesis by (simp add: exp_of_nat_mult [symmetric])
qed

lemma exp_nat_upper: "exp (real n) \<le> 3 ^ n"
proof -
  have "exp (1::real) ^ n \<le> 3 ^ n" using exp_le by (intro power_mono) auto
  then show ?thesis by (simp add: exp_of_nat_mult [symmetric])
qed

lemma exp_neg_upper:
  assumes "0 \<le> (c :: real)"
  shows "exp (- c) \<le> 1 / (1 + c + c\<^sup>2 / 2)"
proof -
  have "1 + c + c\<^sup>2 / 2 \<le> exp c" by (rule exp_lower_Taylor_quadratic [OF assms])
  moreover have "0 < 1 + c + c\<^sup>2 / 2" using assms by (intro add_pos_nonneg) auto
  ultimately have "1 / exp c \<le> 1 / (1 + c + c\<^sup>2 / 2)" by (intro divide_left_mono) auto
  then show ?thesis by (simp add: exp_minus field_simps)
qed

lemma square_half_mono:
  assumes "0 \<le> a" "a \<le> (b :: real)"
  shows "a\<^sup>2 / 2 \<le> b\<^sup>2 / 2"
  using assms by (intro divide_right_mono power_mono) auto

lemma phi_upper_nat:
  assumes "real n \<le> x\<^sup>2 / 2"
  shows "phi x \<le> 1 / (2 * 2 ^ n)"
proof -
  have "exp (- (x\<^sup>2) / 2) \<le> exp (- real n)" using assms by simp
  also have "\<dots> \<le> 1 / 2 ^ n"
    using exp_nat_lower [of n] by (simp add: exp_minus field_simps)
  finally have "exp (- (x\<^sup>2) / 2) / sqrt (2 * pi) \<le> (1 / 2 ^ n) / 2"
    using sqrt_2pi_ge_2 by (intro frac_le) auto
  then show ?thesis by (simp add: phi_def)
qed

lemma phi_lower_nat:
  assumes "x\<^sup>2 / 2 \<le> real n"
  shows "1 / (3 * 3 ^ n) \<le> phi x"
proof -
  have "1 / 3 ^ n \<le> exp (- real n)"
    using exp_nat_upper [of n] by (simp add: exp_minus field_simps)
  also have "\<dots> \<le> exp (- (x\<^sup>2) / 2)" using assms by simp
  finally have "(1 / 3 ^ n) / 3 \<le> exp (- (x\<^sup>2) / 2) / sqrt (2 * pi)"
    using sqrt_2pi_less_3 sqrt_2pi_gt_1 by (intro frac_le) auto
  then show ?thesis by (simp add: phi_def)
qed

lemma phi_upper_exp:
  assumes "c \<le> x\<^sup>2 / 2"
  shows "phi x \<le> exp (- c) / sqrt (2 * pi)"
proof -
  have "exp (- (x\<^sup>2) / 2) \<le> exp (- c)" using assms by simp
  then show ?thesis unfolding phi_def by (intro divide_right_mono) auto
qed

lemma phi_antimono:
  assumes "0 \<le> a" "a \<le> b"
  shows "phi b \<le> phi a"
proof -
  have "a\<^sup>2 \<le> b\<^sup>2" using assms by (intro power_mono) auto
  then have "exp (- (b\<^sup>2) / 2) \<le> exp (- (a\<^sup>2) / 2)" by simp
  then show ?thesis unfolding phi_def by (intro divide_right_mono) auto
qed

lemma phi_drop:
  assumes "0 \<le> a" "a \<le> b"
  shows "phi a - phi b \<le> phi a * ((b\<^sup>2 - a\<^sup>2) / 2)"
proof -
  define D where "D = (b\<^sup>2 - a\<^sup>2) / 2"
  have "- (b\<^sup>2) / 2 = - (a\<^sup>2) / 2 + - D" by (simp add: D_def field_simps)
  then have "exp (- (b\<^sup>2) / 2) = exp (- (a\<^sup>2) / 2) * exp (- D)"
    by (simp only: exp_add)
  then have b: "phi b = phi a * exp (- D)" unfolding phi_def by simp
  have "1 - D \<le> exp (- D)" using exp_ge_add_one_self [of "- D"] by simp
  then have "phi a * (1 - D) \<le> phi a * exp (- D)"
    using phi_pos [of a] by (intro mult_left_mono) auto
  then have "phi a - phi a * D \<le> phi b" unfolding b by (simp add: right_diff_distrib)
  then show ?thesis unfolding D_def [symmetric] by linarith
qed

lemma phi_shift:
  "phi (x - a) = phi x * exp (x * a - a\<^sup>2 / 2)"
proof -
  have e: "- ((x - a)\<^sup>2) / 2 = - (x\<^sup>2) / 2 + (x * a - a\<^sup>2 / 2)"
    by (simp add: power2_diff field_simps)
  have "exp (- ((x - a)\<^sup>2) / 2) = exp (- (x\<^sup>2) / 2) * exp (x * a - a\<^sup>2 / 2)"
    by (simp only: e exp_add)
  then show ?thesis unfolding phi_def by simp
qed

section \<open>A flat vega\<close>

text \<open>A flat vega: when \<open>P * sqrt T \<le> 0.001\<close>, the vega is below \<open>0.001\<close> at every volatility.\<close>

lemma vega_flat:
  assumes "0 < P" "0 < X" "0 < T" "0 < s" "P * sqrt T \<le> 0.001"
  shows "vega P X T r s < 0.001"
proof -
  let ?x = "(ln (P / X) + (r + s\<^sup>2 / 2) * T) / (s * sqrt T)"
  have "0 < P * sqrt T" using assms by simp
  then have "P * sqrt T * phi ?x < P * sqrt T * 1"
    using phi_less_1 [of ?x] by (intro mult_strict_left_mono) auto
  then show ?thesis using assms(5) by (simp add: vega_valid [OF assms(1-4)] mult_ac)
qed

lemma newton_flat:
  assumes "0 < P" "0 < X" "0 < T" "0 < s" "P * sqrt T \<le> 0.001"
  shows "newton P X T r C s 1 = Some (Inr (False, s))"
proof -
  have "loop_pass P X T r C s 1 = Exit False s"
    using vega_flat [OF assms] assms(4)
    by (simp add: loop_pass_valid [OF assms(1-3)] good_le_1)
  then show ?thesis by (rule newton_exit)
qed


section \<open>The derivative of the distribution function\<close>

lemma Phi_coeff_summable: "summable (\<lambda>k. Phi_coeff k * y ^ k)"
proof (rule summable_comparison_test [OF _ summable_exp [of "\<bar>y\<bar>"]], intro exI allI impI)
  fix k :: nat
  have "norm (Phi_coeff k * y ^ k) = \<bar>y\<bar> ^ k / (2 ^ k * fact k * real (2 * k + 1))"
    by (simp add: Phi_coeff_def abs_mult power_abs)
  also have "\<dots> \<le> \<bar>y\<bar> ^ k / (1 * fact k * 1)"
    by (intro divide_left_mono mult_mono mult_pos_pos) (auto simp: one_le_power)
  also have "\<dots> = inverse (fact k) * \<bar>y\<bar> ^ k" by (simp add: field_simps)
  finally show "norm (Phi_coeff k * y ^ k) \<le> inverse (fact k) * \<bar>y\<bar> ^ k" .
qed

lemma Phi_series_deriv:
  "(Phi_series has_real_derivative (\<Sum>k. diffs Phi_coeff k * y ^ k)) (at y)"
  unfolding Phi_series_def [abs_def]
  by (rule termdiffs_strong_converges_everywhere) (rule Phi_coeff_summable)

lemma Phi_series_ode:
  "Phi_series y + 2 * y * (\<Sum>k. diffs Phi_coeff k * y ^ k) = exp (- y / 2)"
proof -
  have sd: "summable (\<lambda>k. diffs Phi_coeff k * y ^ k)"
    by (rule termdiff_converges_all) (rule Phi_coeff_summable)
  let ?D = "\<Sum>k. diffs Phi_coeff k * y ^ k"
  have "(\<lambda>k. real k * Phi_coeff k * y ^ (k - Suc 0)) sums ?D"
    by (rule diffs_equiv [OF sd])
  then have "(\<lambda>k. (2 * y) * (real k * Phi_coeff k * y ^ (k - Suc 0))) sums (2 * y * ?D)"
    by (rule sums_mult)
  moreover have "(2 * y) * (real k * Phi_coeff k * y ^ (k - Suc 0)) = 2 * real k * Phi_coeff k * y ^ k" for k
    by (cases k) simp_all
  ultimately have 1: "(\<lambda>k. 2 * real k * Phi_coeff k * y ^ k) sums (2 * y * ?D)" by simp
  have 2: "(\<lambda>k. Phi_coeff k * y ^ k) sums Phi_series y"
    unfolding Phi_series_def by (rule summable_sums [OF Phi_coeff_summable])
  have "(\<lambda>k. Phi_coeff k * y ^ k + 2 * real k * Phi_coeff k * y ^ k) sums (Phi_series y + 2 * y * ?D)"
    by (rule sums_add [OF 2 1])
  moreover have "Phi_coeff k * y ^ k + 2 * real k * Phi_coeff k * y ^ k = (- y / 2) ^ k /\<^sub>R fact k" for k
  proof -
    have "Phi_coeff k * y ^ k + 2 * real k * Phi_coeff k * y ^ k = (real (2 * k + 1) * Phi_coeff k) * y ^ k"
      by (simp add: algebra_simps)
    also have "real (2 * k + 1) * Phi_coeff k = (- 1) ^ k / (2 ^ k * fact k)"
      by (simp add: Phi_coeff_def)
    also have "(- 1) ^ k / (2 ^ k * fact k) * y ^ k = (- y / 2) ^ k /\<^sub>R fact k"
    proof -
      have "(- y / 2) ^ k = ((- 1) * y / 2) ^ k" by simp
      also have "\<dots> = (- 1) ^ k * y ^ k / 2 ^ k"
        by (simp only: power_divide power_mult_distrib)
      finally show ?thesis by (simp add: field_simps)
    qed
    finally show ?thesis .
  qed
  ultimately have "(\<lambda>k. (- y / 2) ^ k /\<^sub>R fact k) sums (Phi_series y + 2 * y * ?D)" by simp
  from sums_unique2 [OF this exp_converges] show ?thesis .
qed

lemma Phi_eq: "Phi x = 1 / 2 + x * Phi_series (x\<^sup>2) / sqrt (2 * pi)"
proof -
  have "(\<Sum>k. (- 1) ^ k * x ^ (2 * k + 1) / (2 ^ k * fact k * real (2 * k + 1))) =
        (\<Sum>k. x * (Phi_coeff k * (x\<^sup>2) ^ k))"
    by (intro arg_cong [where f = suminf] ext) (simp add: Phi_coeff_def power_mult)
  also have "\<dots> = x * Phi_series (x\<^sup>2)"
    unfolding Phi_series_def by (rule suminf_mult [OF Phi_coeff_summable])
  finally show ?thesis by (simp add: Phi_def)
qed

lemma Phi_deriv: "(Phi has_real_derivative phi x) (at x)"
proof -
  let ?D = "\<lambda>y. \<Sum>k. diffs Phi_coeff k * y ^ k"
  have "((\<lambda>x. 1 / 2 + x * Phi_series (x\<^sup>2) / sqrt (2 * pi)) has_real_derivative
          (Phi_series (x\<^sup>2) + 2 * x\<^sup>2 * ?D (x\<^sup>2)) / sqrt (2 * pi)) (at x)"
    by (auto intro!: derivative_eq_intros DERIV_chain2 [OF Phi_series_deriv]
          simp: power2_eq_square field_simps)
  then have "(Phi has_real_derivative (Phi_series (x\<^sup>2) + 2 * x\<^sup>2 * ?D (x\<^sup>2)) / sqrt (2 * pi)) (at x)"
    by (simp add: Phi_eq [abs_def])
  then show ?thesis by (simp add: Phi_series_ode phi_def)
qed

lemma Phi_0: "Phi 0 = 1 / 2"
  by (simp add: Phi_eq)

text \<open>The distribution function near \<open>0\<close>, from below and from above.\<close>

lemma Phi_lower:
  assumes "0 \<le> x"
  shows "1 / 2 + x * phi x \<le> Phi x"
proof -
  define f where "f = (\<lambda>y. Phi y - y * phi x)"
  have "f 0 \<le> f x"
  proof (rule DERIV_nonneg_imp_nondecreasing [where f = f and a = 0 and b = x])
    show "0 \<le> x" by (rule assms)
    fix y :: real
    assume y: "0 \<le> y" "y \<le> x"
    have "(f has_real_derivative phi y - phi x) (at y)"
      unfolding f_def by (auto intro!: derivative_eq_intros Phi_deriv)
    moreover have "0 \<le> phi y - phi x" using phi_antimono [OF y] by simp
    ultimately show "\<exists>z. (f has_real_derivative z) (at y) \<and> 0 \<le> z" by blast
  qed
  then show ?thesis by (simp add: f_def Phi_0)
qed

lemma Phi_upper:
  assumes "0 \<le> x"
  shows "Phi x \<le> 1 / 2 + x * phi 0"
proof -
  define f where "f = (\<lambda>y. Phi y - y * phi 0)"
  have "f x \<le> f 0"
  proof (rule DERIV_nonpos_imp_nonincreasing [where f = f and a = 0 and b = x])
    show "0 \<le> x" by (rule assms)
    fix y :: real
    assume y: "0 \<le> y" "y \<le> x"
    have "(f has_real_derivative phi y - phi 0) (at y)"
      unfolding f_def by (auto intro!: derivative_eq_intros Phi_deriv)
    moreover have "phi y - phi 0 \<le> 0" using phi_antimono [of 0 y] y by simp
    ultimately show "\<exists>z. (f has_real_derivative z) (at y) \<and> z \<le> 0" by blast
  qed
  then show ?thesis by (simp add: f_def Phi_0)
qed

section \<open>The vega is the derivative of the price in the volatility\<close>

lemma d1_at_deriv:
  assumes "0 < T" "0 < u"
  shows "((\<lambda>u. d1_at P X T r u) has_real_derivative (sqrt T - d1_at P X T r u / u)) (at u)"
proof -
  have nz: "u * sqrt T \<noteq> 0" using assms by simp
  have "((\<lambda>u. (ln (P / X) + (r + u\<^sup>2 / 2) * T) / (u * sqrt T)) has_real_derivative
        ((u * T) * (u * sqrt T) - (ln (P / X) + (r + u\<^sup>2 / 2) * T) * sqrt T) / ((u * sqrt T) * (u * sqrt T))) (at u)"
    using nz by (auto intro!: derivative_eq_intros simp: power2_eq_square)
  moreover have "((u * T) * (u * sqrt T) - (ln (P / X) + (r + u\<^sup>2 / 2) * T) * sqrt T) / ((u * sqrt T) * (u * sqrt T))
      = sqrt T - d1_at P X T r u / u"
  proof -
    have T: "sqrt T * sqrt T = T" using assms by simp
    have "((u * T) * (u * sqrt T) - (ln (P / X) + (r + u\<^sup>2 / 2) * T) * sqrt T) / ((u * sqrt T) * (u * sqrt T))
        = (u * T) * (u * sqrt T) / ((u * sqrt T) * (u * sqrt T)) - (ln (P / X) + (r + u\<^sup>2 / 2) * T) * sqrt T / ((u * sqrt T) * (u * sqrt T))"
      by (simp add: diff_divide_distrib)
    also have "(u * T) * (u * sqrt T) / ((u * sqrt T) * (u * sqrt T)) = sqrt T"
      using assms nz by (simp add: field_simps T)
    also have "(ln (P / X) + (r + u\<^sup>2 / 2) * T) * sqrt T / ((u * sqrt T) * (u * sqrt T)) = d1_at P X T r u / u"
      using assms nz by (simp add: d1_at_def)
    finally show ?thesis .
  qed
  ultimately show ?thesis by (simp add: d1_at_def [abs_def])
qed

lemma discounted_density:
  assumes "0 < P" "0 < X" "0 < T" "0 < u"
  shows "X * exp (- r * T) * phi (d1_at P X T r u - u * sqrt T) = P * phi (d1_at P X T r u)"
proof -
  have T: "sqrt T * sqrt T = T" using assms by simp
  have A: "d1_at P X T r u * (u * sqrt T) = ln (P / X) + (r + u\<^sup>2 / 2) * T"
    using assms by (simp add: d1_at_def)
  have B: "(u * sqrt T)\<^sup>2 = u\<^sup>2 * T"
  proof -
    have "(sqrt T)\<^sup>2 = T" using assms by simp
    then show ?thesis by (simp only: power_mult_distrib)
  qed
  have "d1_at P X T r u * (u * sqrt T) - (u * sqrt T)\<^sup>2 / 2 = ln (P / X) + r * T"
    unfolding A B by (simp add: algebra_simps)
  then have "phi (d1_at P X T r u - u * sqrt T) = phi (d1_at P X T r u) * exp (ln (P / X) + r * T)"
    by (simp add: phi_shift)
  also have "exp (ln (P / X) + r * T) = P / X * exp (r * T)"
    using assms by (simp add: exp_add)
  finally have "X * exp (- r * T) * phi (d1_at P X T r u - u * sqrt T)
      = X * exp (- r * T) * (phi (d1_at P X T r u) * (P / X * exp (r * T)))" by simp
  also have "\<dots> = P * phi (d1_at P X T r u) * (exp (- r * T) * exp (r * T))"
    using assms by simp
  also have "exp (- r * T) * exp (r * T) = 1" by (simp add: exp_add [symmetric])
  finally show ?thesis by simp
qed

lemma price_at_deriv:
  assumes "0 < P" "0 < X" "0 < T" "0 < u"
  shows "((\<lambda>u. price_at P X T r u) has_real_derivative P * phi (d1_at P X T r u) * sqrt T) (at u)"
proof -
  let ?d1 = "d1_at P X T r u"
  let ?d' = "sqrt T - ?d1 / u"
  have a: "((\<lambda>u. Phi (d1_at P X T r u)) has_real_derivative phi ?d1 * ?d') (at u)"
    by (rule DERIV_chain2 [OF Phi_deriv d1_at_deriv [OF assms(3,4)]])
  have "((\<lambda>u. d1_at P X T r u - u * sqrt T) has_real_derivative ?d' - sqrt T) (at u)"
    by (auto intro!: derivative_eq_intros d1_at_deriv [OF assms(3,4)])
  then have b: "((\<lambda>u. Phi (d1_at P X T r u - u * sqrt T)) has_real_derivative
      phi (?d1 - u * sqrt T) * (?d' - sqrt T)) (at u)"
    by (rule DERIV_chain2 [OF Phi_deriv])
  have "((\<lambda>u. P * Phi (d1_at P X T r u) - X * exp (- r * T) * Phi (d1_at P X T r u - u * sqrt T))
      has_real_derivative
      P * (phi ?d1 * ?d') - X * exp (- r * T) * (phi (?d1 - u * sqrt T) * (?d' - sqrt T))) (at u)"
    by (intro DERIV_diff DERIV_cmult a b)
  moreover have "P * (phi ?d1 * ?d') - X * exp (- r * T) * (phi (?d1 - u * sqrt T) * (?d' - sqrt T))
      = P * phi ?d1 * sqrt T"
  proof -
    have "X * exp (- r * T) * (phi (?d1 - u * sqrt T) * (?d' - sqrt T))
        = (X * exp (- r * T) * phi (?d1 - u * sqrt T)) * (?d' - sqrt T)" by simp
    also have "\<dots> = P * phi ?d1 * (?d' - sqrt T)"
      by (simp only: discounted_density [OF assms])
    finally show ?thesis by (simp add: algebra_simps)
  qed
  ultimately show ?thesis by (simp add: price_at_def [abs_def])
qed




section \<open>Examples at the money\<close>

text \<open>An at-the-money example: \<open>P = X = 100\<close>, \<open>T = 1\<close>, \<open>r = 0\<close>, at the first guess.\<close>

lemma vega_example: "30 \<le> vega 100 100 1 0 (5 / 100)"
proof -
  have v: "vega 100 100 1 0 (5 / 100) = 100 * phi (25 / 1000)"
    by (simp add: vega_valid power2_eq_square)
  have "(1 - (25 / 1000 :: real)\<^sup>2 / 2) / 3 \<le> phi (25 / 1000)" by (rule phi_lower)
  then have "3 / 10 \<le> phi (25 / 1000)" by (simp add: power2_eq_square)
  then show ?thesis unfolding v by simp
qed




text \<open>
  An example with two guesses: \<open>P = X = 100\<close>, \<open>T = 1\<close>, \<open>r = - 0.3\<close>.  The vega is
  below \<open>0.001\<close> at the first guess \<open>0.05\<close> and above it at the second, \<open>0.075\<close>.
\<close>

lemma vega_example_first: "vega 100 100 1 (- 3 / 10) (5 / 100) < 0.001"
proof -
  have v: "vega 100 100 1 (- 3 / 10) (5 / 100) = 100 * phi (- 5975 / 1000)"
    by (simp add: vega_valid power2_eq_square)
  have "phi (- 5975 / 1000) \<le> 1 / (2 * 2 ^ 17)"
    by (rule phi_upper_nat) (simp add: power2_eq_square)
  then show ?thesis unfolding v by simp
qed

lemma vega_example_second: "0.001 \<le> vega 100 100 1 (- 3 / 10) (75 / 1000)"
proof -
  have v: "vega 100 100 1 (- 3 / 10) (75 / 1000) = 100 * phi (- 39625 / 10000)"
    by (simp add: vega_valid power2_eq_square)
  have "1 / (3 * 3 ^ 8) \<le> phi (- 39625 / 10000)"
    by (rule phi_lower_nat) (simp add: power2_eq_square)
  then show ?thesis unfolding v by simp
qed

text \<open>
  An example of a price error beyond the explosion bound: \<open>P = X = 100\<close>, \<open>T = 1\<close>,
  \<open>r = 0.01\<close> and the observed price \<open>1000\<close>, at the first guess.
\<close>

lemma vega_example_far: "0.001 \<le> vega 100 100 1 (1 / 100) (5 / 100)"
proof -
  have v: "vega 100 100 1 (1 / 100) (5 / 100) = 100 * phi (225 / 1000)"
    by (simp add: vega_valid power2_eq_square)
  have "(1 - (225 / 1000 :: real)\<^sup>2 / 2) / 3 \<le> phi (225 / 1000)" by (rule phi_lower)
  then have "3 / 10 \<le> phi (225 / 1000)" by (simp add: power2_eq_square)
  then show ?thesis unfolding v by simp
qed

lemma price_example_far: "price 100 100 1 (1 / 100) (5 / 100) \<le> 100"
proof -
  have p: "price 100 100 1 (1 / 100) (5 / 100) =
      100 * Phi (225 / 1000) - 100 * exp (- (1 / 100)) * Phi (175 / 1000)"
    by (simp add: price_valid power2_eq_square)
  have "Phi (225 / 1000) \<le> 1 / 2 + 225 / 1000 * phi 0" by (rule Phi_upper) simp
  moreover have "phi 0 < 1" by (rule phi_less_1)
  ultimately have a: "100 * Phi (225 / 1000) \<le> 100" by simp
  have "1 / 2 + 175 / 1000 * phi (175 / 1000) \<le> Phi (175 / 1000)" by (rule Phi_lower) simp
  moreover have "0 < phi (175 / 1000)" by (rule phi_pos)
  ultimately have "0 \<le> Phi (175 / 1000)" by simp
  then have b: "0 \<le> 100 * exp (- (1 / 100)) * Phi (175 / 1000)" by simp
  from a b show ?thesis unfolding p by linarith
qed

section \<open>The example of a negative result: the density and the vega\<close>

lemma sqrt_ex_T: "sqrt (1 / 2500) = 1 / 50"
  by (rule real_sqrt_unique) (simp_all add: power2_eq_square)

lemma ex_d1_eq:
  assumes "0 < u"
  shows "ex_d1 u = (1 / 400 + u\<^sup>2) / (100 * u)"
  using assms by (simp add: ex_d1_def d1_at_def sqrt_ex_T field_simps)

lemma ex_price_valid:
  assumes "0 < u"
  shows "price 2 2 (1 / 2500) (1 / 800) u = ex_price u"
  unfolding ex_price_def by (rule price_at_eq) (use assms in simp_all)

lemma ex_vega_valid:
  assumes "0 < u"
  shows "vega 2 2 (1 / 2500) (1 / 800) u = ex_vega u"
proof -
  have "vega 2 2 (1 / 2500) (1 / 800) u = 2 * phi (d1_at 2 2 (1 / 2500) (1 / 800) u) * sqrt (1 / 2500)"
    by (rule vega_at_eq) (use assms in simp_all)
  then show ?thesis by (simp add: ex_vega_def ex_d1_def sqrt_ex_T)
qed

lemma ex_price_deriv:
  assumes "0 < u"
  shows "(ex_price has_real_derivative ex_vega u) (at u)"
proof -
  have "((\<lambda>u. price_at 2 2 (1 / 2500) (1 / 800) u) has_real_derivative
          2 * phi (d1_at 2 2 (1 / 2500) (1 / 800) u) * sqrt (1 / 2500)) (at u)"
    by (rule price_at_deriv) (use assms in simp_all)
  then show ?thesis by (simp add: ex_price_def [abs_def] ex_vega_def ex_d1_def sqrt_ex_T)
qed

lemma ex_d1_ge:
  assumes "0 < u"
  shows "1 / 1000 \<le> ex_d1 u"
proof -
  have "(u - 1 / 20)\<^sup>2 = u\<^sup>2 - u / 10 + 1 / 400"
    by (simp add: power2_diff power2_eq_square field_simps)
  moreover have "0 \<le> (u - 1 / 20)\<^sup>2" by simp
  ultimately have "u / 10 \<le> 1 / 400 + u\<^sup>2" by linarith
  then have "(u / 10) / (100 * u) \<le> (1 / 400 + u\<^sup>2) / (100 * u)"
    using assms by (intro divide_right_mono) auto
  then show ?thesis using assms by (simp add: ex_d1_eq)
qed

lemma ex_d1_antimono:
  assumes "0 < u" "u \<le> v" "v \<le> 1 / 20"
  shows "ex_d1 v \<le> ex_d1 u"
proof -
  have v: "0 < v" using assms by simp
  have "u * v \<le> (1 / 20) * (1 / 20)" using assms by (intro mult_mono) auto
  then have "0 \<le> (v - u) * (1 / 400 - u * v)" using assms by (intro mult_nonneg_nonneg) auto
  moreover have "(v - u) * (1 / 400 - u * v) = (1 / 400 + u\<^sup>2) * v - (1 / 400 + v\<^sup>2) * u"
    by (simp add: field_simps power2_eq_square)
  ultimately have "(1 / 400 + v\<^sup>2) * u \<le> (1 / 400 + u\<^sup>2) * v" by linarith
  then have "(1 / 400 + v\<^sup>2) / (100 * v) \<le> (1 / 400 + u\<^sup>2) / (100 * u)"
    using assms v by (simp add: field_simps)
  then show ?thesis by (simp add: ex_d1_eq assms(1) v)
qed

lemma ex_d1_square:
  assumes "0 < u" "u \<le> 1 / 20"
  shows "((ex_d1 u)\<^sup>2 - (1 / 1000)\<^sup>2) / 2 \<le> 1 / (3200000000 * u\<^sup>2)"
proof -
  have "(ex_d1 u)\<^sup>2 - (1 / 1000)\<^sup>2 = (1 / 400 - u\<^sup>2)\<^sup>2 / (10000 * u\<^sup>2)"
    using assms(1) by (simp add: ex_d1_eq power2_eq_square field_simps)
  moreover have "(1 / 400 - u\<^sup>2)\<^sup>2 \<le> (1 / 400)\<^sup>2"
  proof (rule power_mono)
    have "u\<^sup>2 \<le> (1 / 20)\<^sup>2" using assms by (intro power_mono) auto
    then show "0 \<le> 1 / 400 - u\<^sup>2" by (simp add: power2_eq_square)
    show "1 / 400 - u\<^sup>2 \<le> 1 / 400" by simp
  qed
  then have "(1 / 400 - u\<^sup>2)\<^sup>2 / (10000 * u\<^sup>2) \<le> (1 / 400)\<^sup>2 / (10000 * u\<^sup>2)"
    using assms(1) by (intro divide_right_mono) auto
  ultimately have "(ex_d1 u)\<^sup>2 - (1 / 1000)\<^sup>2 \<le> (1 / 400)\<^sup>2 / (10000 * u\<^sup>2)" by simp
  then show ?thesis by (simp add: power2_eq_square)
qed

lemma ex_d1_first: "ex_d1 (1 / 20) = 1 / 1000"
  by (simp add: ex_d1_eq power2_eq_square)

lemma ex_vega_first: "1 / 100 \<le> ex_vega (1 / 20)" "ex_vega (1 / 20) \<le> 1 / 50"
proof -
  have "(1 - (1 / 1000 :: real)\<^sup>2 / 2) / 3 \<le> phi (1 / 1000)" by (rule phi_lower)
  then have "1 / 4 \<le> phi (1 / 1000)" by (simp add: power2_eq_square)
  then show "1 / 100 \<le> ex_vega (1 / 20)" by (simp add: ex_vega_def ex_d1_first)
  have "phi (1 / 1000) \<le> 1 / (2 * 2 ^ 0)" by (rule phi_upper_nat) simp
  then show "ex_vega (1 / 20) \<le> 1 / 50" by (simp add: ex_vega_def ex_d1_first)
qed

lemma ex_vega_drop:
  assumes "0 < u" "u \<le> 1 / 20"
  shows "ex_vega (1 / 20) - ex_vega u \<le> ex_vega (1 / 20) / (3200000000 * u\<^sup>2)"
proof -
  have "phi (1 / 1000) - phi (ex_d1 u) \<le> phi (1 / 1000) * (((ex_d1 u)\<^sup>2 - (1 / 1000)\<^sup>2) / 2)"
    by (rule phi_drop) (use ex_d1_ge [OF assms(1)] in simp_all)
  also have "\<dots> \<le> phi (1 / 1000) * (1 / (3200000000 * u\<^sup>2))"
    using phi_pos [of "1 / 1000"] by (intro mult_left_mono ex_d1_square assms) auto
  finally have "(phi (1 / 1000) - phi (ex_d1 u)) / 25 \<le> phi (1 / 1000) * (1 / (3200000000 * u\<^sup>2)) / 25"
    by (rule divide_right_mono) simp
  then show ?thesis by (simp add: ex_vega_def ex_d1_first diff_divide_distrib)
qed

lemma ex_vega_le_first:
  assumes "0 < u"
  shows "ex_vega u \<le> ex_vega (1 / 20)"
proof -
  have "phi (ex_d1 u) \<le> phi (1 / 1000)"
    by (rule phi_antimono) (use ex_d1_ge [OF assms] in simp_all)
  then show ?thesis by (simp add: ex_vega_def ex_d1_first)
qed

lemma ex_vega_mono:
  assumes "0 < u" "u \<le> v" "v \<le> 1 / 20"
  shows "ex_vega u \<le> ex_vega v"
proof -
  have v: "0 < v" using assms by simp
  have "0 \<le> ex_d1 v" using ex_d1_ge [OF v] by simp
  then have "phi (ex_d1 u) \<le> phi (ex_d1 v)"
    by (rule phi_antimono) (rule ex_d1_antimono [OF assms])
  then show ?thesis by (simp add: ex_vega_def)
qed

text \<open>
  The price error at a candidate \<open>t\<close> that the Newton step from the first guess has
  reached, \<open>ex_price t - ex_price (1 / 20) + (1 / 20 - t) * ex_vega (1 / 20)\<close>, from above
  and from below.
\<close>

lemma ex_error_upper:
  assumes t: "0 < t" "t \<le> 1 / 20"
  shows "ex_price t - ex_price (1 / 20) + (1 / 20 - t) * ex_vega (1 / 20) \<le>
         ex_vega (1 / 20) / (3200000000 * t)"
proof -
  define V0 where "V0 = ex_vega (1 / 20)"
  define K where "K = V0 / 3200000000"
  define f where "f = (\<lambda>u. ex_price u - V0 * u - K / u)"
  have K: "0 \<le> K" using ex_vega_first(1) by (simp add: K_def V0_def)
  have "f t \<le> f (1 / 20)"
  proof (rule DERIV_nonneg_imp_nondecreasing [where f = f and a = t and b = "1 / 20"])
    show "t \<le> 1 / 20" by (rule t)
    fix u :: real
    assume u: "t \<le> u" "u \<le> 1 / 20"
    then have u0: "0 < u" using t by simp
    have "(f has_real_derivative ex_vega u - V0 + K / u\<^sup>2) (at u)"
      unfolding f_def using u0
      by (auto intro!: derivative_eq_intros ex_price_deriv simp: power2_eq_square)
    moreover have "0 \<le> ex_vega u - V0 + K / u\<^sup>2"
      using ex_vega_drop [OF u0 u(2)] by (simp add: V0_def K_def)
    ultimately show "\<exists>y. (f has_real_derivative y) (at u) \<and> 0 \<le> y" by blast
  qed
  then have "ex_price t - V0 * t - K / t \<le> ex_price (1 / 20) - V0 * (1 / 20) - K * 20"
    by (simp add: f_def)
  then have "ex_price t - ex_price (1 / 20) + (V0 * (1 / 20) - V0 * t) \<le> K / t"
    using K by linarith
  moreover have "(1 / 20 - t) * V0 = V0 * (1 / 20) - V0 * t" by (simp add: algebra_simps)
  moreover have "K / t = V0 / (3200000000 * t)" by (simp add: K_def)
  ultimately show ?thesis unfolding V0_def [symmetric] by simp
qed

lemma ex_error_lower:
  assumes t: "0 < t" "2 * t \<le> 1 / 20"
  shows "t * (ex_vega (1 / 20) - ex_vega (2 * t)) \<le>
         ex_price t - ex_price (1 / 20) + (1 / 20 - t) * ex_vega (1 / 20)"
proof -
  define V0 where "V0 = ex_vega (1 / 20)"
  define V2 where "V2 = ex_vega (2 * t)"
  define f where "f = (\<lambda>u. ex_price u - V0 * u)"
  define g where "g = (\<lambda>u. ex_price u - V2 * u)"
  have "f (1 / 20) \<le> f (2 * t)"
  proof (rule DERIV_nonpos_imp_nonincreasing [where f = f and a = "2 * t" and b = "1 / 20"])
    show "2 * t \<le> 1 / 20" by (rule t)
    fix u :: real
    assume u: "2 * t \<le> u" "u \<le> 1 / 20"
    then have u0: "0 < u" using t by simp
    have "(f has_real_derivative ex_vega u - V0) (at u)"
      unfolding f_def using u0 by (auto intro!: derivative_eq_intros ex_price_deriv)
    moreover have "ex_vega u - V0 \<le> 0"
      using ex_vega_le_first [OF u0] by (simp add: V0_def)
    ultimately show "\<exists>y. (f has_real_derivative y) (at u) \<and> y \<le> 0" by blast
  qed
  then have 1: "ex_price (1 / 20) - V0 * (1 / 20) \<le> ex_price (2 * t) - V0 * (2 * t)"
    by (simp add: f_def)
  have "g (2 * t) \<le> g t"
  proof (rule DERIV_nonpos_imp_nonincreasing [where f = g and a = t and b = "2 * t"])
    show "t \<le> 2 * t" using t by simp
    fix u :: real
    assume u: "t \<le> u" "u \<le> 2 * t"
    then have u0: "0 < u" using t by simp
    have "(g has_real_derivative ex_vega u - V2) (at u)"
      unfolding g_def using u0 by (auto intro!: derivative_eq_intros ex_price_deriv)
    moreover have "ex_vega u - V2 \<le> 0"
      using ex_vega_mono [OF u0 u(2) t(2)] by (simp add: V2_def)
    ultimately show "\<exists>y. (g has_real_derivative y) (at u) \<and> y \<le> 0" by blast
  qed
  then have 2: "ex_price (2 * t) - V2 * (2 * t) \<le> ex_price t - V2 * t"
    by (simp add: g_def)
  have a: "V0 * (2 * t) = 2 * (V0 * t)" "V2 * (2 * t) = 2 * (V2 * t)" by simp_all
  from 1 2 have "V0 * t - V2 * t \<le> ex_price t - ex_price (1 / 20) + (V0 * (1 / 20) - V0 * t)"
    unfolding a by linarith
  moreover have "t * (V0 - V2) = V0 * t - V2 * t" by (simp add: algebra_simps)
  moreover have "(1 / 20 - t) * V0 = V0 * (1 / 20) - V0 * t" by (simp add: algebra_simps)
  ultimately show ?thesis unfolding V0_def [symmetric] V2_def [symmetric] by simp
qed

text \<open>
  The vega and the gap for a candidate between \<open>0.000012\<close> and \<open>0.0000145\<close>,
  where the second candidate will be found.
\<close>

lemma ex_d1_low: "ex_d1 (3 / 250000) = 25 / 12 + 3 / 25000000"
  by (simp add: ex_d1_eq power2_eq_square)

lemma ex_d1_high: "ex_d1 (29 / 2000000) = 50 / 29 + 29 / 200000000"
  by (simp add: ex_d1_eq power2_eq_square)

lemma ex_d1_high2: "ex_d1 (29 / 1000000) = 25 / 29 + 29 / 100000000"
  by (simp add: ex_d1_eq power2_eq_square)

lemma ex_vega_second:
  assumes t: "3 / 250000 \<le> t" "t \<le> 29 / 2000000"
  shows "1 / 1000 \<le> ex_vega t"
proof -
  have t0: "0 < t" using t by simp
  have "0 \<le> ex_d1 t" using ex_d1_ge [OF t0] by simp
  moreover have "ex_d1 t \<le> ex_d1 (3 / 250000)" by (rule ex_d1_antimono) (use t in simp_all)
  ultimately have "(ex_d1 t)\<^sup>2 / 2 \<le> (ex_d1 (3 / 250000))\<^sup>2 / 2" by (rule square_half_mono)
  also have "\<dots> \<le> 2 + 18 / 100" by (simp add: ex_d1_low power2_eq_square)
  finally have "exp ((ex_d1 t)\<^sup>2 / 2) \<le> exp (2 + 18 / 100)" by simp
  also have "\<dots> = exp 2 * exp (18 / 100)" by (simp only: exp_add)
  also have "\<dots> \<le> 9 * (1 + 18 / 100 + (18 / 100)\<^sup>2)"
  proof (rule mult_mono)
    show "exp (2 :: real) \<le> 9" using exp_nat_upper [of 2] by simp
    show "exp (18 / 100 :: real) \<le> 1 + 18 / 100 + (18 / 100)\<^sup>2" by (rule exp_bound) simp_all
  qed simp_all
  finally have e: "exp ((ex_d1 t)\<^sup>2 / 2) \<le> 11" by (simp add: power2_eq_square)
  have "1 / 11 \<le> 1 / exp ((ex_d1 t)\<^sup>2 / 2)"
    using e by (intro divide_left_mono) auto
  also have "\<dots> = exp (- ((ex_d1 t)\<^sup>2) / 2)"
    by (simp add: exp_minus field_simps)
  finally have "(1 / 11) / 3 \<le> exp (- ((ex_d1 t)\<^sup>2) / 2) / sqrt (2 * pi)"
    using sqrt_2pi_less_3 sqrt_2pi_gt_1 by (intro frac_le) auto
  then have "1 / 33 \<le> phi (ex_d1 t)" by (simp add: phi_def)
  then show ?thesis by (simp add: ex_vega_def)
qed

lemma ex_vega_gap:
  assumes t: "3 / 250000 \<le> t" "t \<le> 29 / 2000000"
  shows "ex_vega t < ex_vega (1 / 20) - ex_vega (2 * t)"
proof -
  define q where "q = sqrt (2 * pi)"
  have q: "0 < q" by (simp add: q_def)
  have t0: "0 < t" using t by simp
  have "ex_d1 (29 / 2000000) \<le> ex_d1 t" by (rule ex_d1_antimono) (use t t0 in simp_all)
  then have "(ex_d1 (29 / 2000000))\<^sup>2 / 2 \<le> (ex_d1 t)\<^sup>2 / 2"
    by (intro square_half_mono) (simp_all add: ex_d1_high)
  moreover have "148 / 100 \<le> (ex_d1 (29 / 2000000))\<^sup>2 / 2"
    by (simp add: ex_d1_high power2_eq_square)
  ultimately have "148 / 100 \<le> (ex_d1 t)\<^sup>2 / 2" by linarith
  then have "phi (ex_d1 t) \<le> exp (- (148 / 100)) / q"
    unfolding q_def by (rule phi_upper_exp)
  moreover have "exp (- (148 / 100 :: real)) \<le> 1 / (1 + 148 / 100 + (148 / 100)\<^sup>2 / 2)"
    by (rule exp_neg_upper) simp
  then have "exp (- (148 / 100 :: real)) \<le> 28 / 100" by (simp add: power2_eq_square)
  then have "exp (- (148 / 100)) / q \<le> (28 / 100) / q" using q by (intro divide_right_mono) auto
  ultimately have a: "phi (ex_d1 t) \<le> (28 / 100) / q" by linarith
  have "ex_d1 (29 / 1000000) \<le> ex_d1 (2 * t)" by (rule ex_d1_antimono) (use t t0 in simp_all)
  then have "(ex_d1 (29 / 1000000))\<^sup>2 / 2 \<le> (ex_d1 (2 * t))\<^sup>2 / 2"
    by (intro square_half_mono) (simp_all add: ex_d1_high2)
  moreover have "37 / 100 \<le> (ex_d1 (29 / 1000000))\<^sup>2 / 2"
    by (simp add: ex_d1_high2 power2_eq_square)
  ultimately have "37 / 100 \<le> (ex_d1 (2 * t))\<^sup>2 / 2" by linarith
  then have "phi (ex_d1 (2 * t)) \<le> exp (- (37 / 100)) / q"
    unfolding q_def by (rule phi_upper_exp)
  moreover have "exp (- (37 / 100 :: real)) \<le> 1 / (1 + 37 / 100 + (37 / 100)\<^sup>2 / 2)"
    by (rule exp_neg_upper) simp
  then have "exp (- (37 / 100 :: real)) \<le> 70 / 100" by (simp add: power2_eq_square)
  then have "exp (- (37 / 100)) / q \<le> (70 / 100) / q" using q by (intro divide_right_mono) auto
  ultimately have b: "phi (ex_d1 (2 * t)) \<le> (70 / 100) / q" by linarith
  have "99 / 100 \<le> exp (- ((1 / 1000 :: real)\<^sup>2) / 2)"
    using exp_ge_add_one_self [of "- ((1 / 1000 :: real)\<^sup>2) / 2"] by (simp add: power2_eq_square)
  then have "(99 / 100) / q \<le> exp (- ((1 / 1000 :: real)\<^sup>2) / 2) / q"
    using q by (intro divide_right_mono) auto
  then have c: "(99 / 100) / q \<le> phi (1 / 1000)" by (simp add: phi_def q_def)
  have "(28 / 100) / q + (70 / 100) / q < (99 / 100) / q"
    using q by (simp add: field_simps)
  with a b c have "phi (ex_d1 t) + phi (ex_d1 (2 * t)) < phi (1 / 1000)" by linarith
  then show ?thesis by (simp add: ex_vega_def ex_d1_first)
qed

section \<open>The example of a negative result: the second candidate\<close>

text \<open>
  The price and the vega at the first guess, in \<open>e = exp (- 1 / 2000000)\<close> and
  \<open>q = sqrt (2 * pi)\<close>.
\<close>

lemma ex_phi_first: "phi (1 / 1000) = exp (- (1 / 2000000)) / sqrt (2 * pi)"
  by (simp add: phi_def power2_eq_square)

lemma ex_vega_first_eq: "ex_vega (1 / 20) = exp (- (1 / 2000000)) / (25 * sqrt (2 * pi))"
  by (simp add: ex_vega_def ex_d1_first ex_phi_first)

lemma ex_price_first: "ex_price (1 / 20) = 2 * Phi (1 / 1000) - exp (- (1 / 2000000))"
proof -
  have d2: "ex_d1 (1 / 20) - 1 / 20 * sqrt (1 / 2500) = 0"
    by (simp add: ex_d1_first sqrt_ex_T)
  have "ex_price (1 / 20) = 2 * Phi (1 / 1000) - 2 * exp (- (1 / 800) * (1 / 2500)) * Phi 0"
    unfolding ex_price_def price_at_def ex_d1_def [symmetric] d2 by (simp add: ex_d1_first)
  then show ?thesis by (simp add: Phi_0)
qed

lemma ex_e_bounds:
  "1 - 1 / 2000000 \<le> exp (- (1 / 2000000 :: real))"
  "exp (- (1 / 2000000 :: real)) \<le> 2000000 / 2000001"
proof -
  show "1 - 1 / 2000000 \<le> exp (- (1 / 2000000 :: real))"
    using exp_ge_add_one_self [of "- (1 / 2000000 :: real)"] by simp
  have "1 + 1 / 2000000 \<le> exp (1 / 2000000 :: real)" by (rule exp_ge_add_one_self)
  then have "1 / exp (1 / 2000000 :: real) \<le> 1 / (1 + 1 / 2000000)"
    by (intro divide_left_mono) auto
  then show "exp (- (1 / 2000000 :: real)) \<le> 2000000 / 2000001"
    by (simp add: exp_minus field_simps)
qed

text \<open>The second candidate lies between \<open>0.000012\<close> and \<open>0.0000145\<close>.\<close>

lemma ex_t_bounds: "3 / 250000 \<le> ex_t" "ex_t \<le> 29 / 2000000"
proof -
  define e where "e = exp (- (1 / 2000000 :: real))"
  define q where "q = sqrt (2 * pi)"
  define Z where "Z = (2 * Phi (1 / 1000) - 1) * q"
  define w where "w = (7 / 10 ^ 7 - 1 + e) * q"
  have e: "1 - 1 / 2000000 \<le> e" "e \<le> 2000000 / 2000001"
    using ex_e_bounds by (simp_all add: e_def)
  have e0: "0 < e" by (simp add: e_def)
  have q: "2449 / 1000 \<le> q" "q \<le> 2829 / 1000"
    using sqrt_2pi_bounds by (simp_all add: q_def)
  have q0: "0 < q" by (simp add: q_def)
  have "1 / 2 + 1 / 1000 * phi (1 / 1000) \<le> Phi (1 / 1000)" by (rule Phi_lower) simp
  then have "2 / 1000 * (e / q) \<le> 2 * Phi (1 / 1000) - 1"
    by (simp add: ex_phi_first e_def q_def)
  then have "2 / 1000 * (e / q) * q \<le> (2 * Phi (1 / 1000) - 1) * q"
    using q0 by (intro mult_right_mono) auto
  then have Z1: "2 / 1000 * e \<le> Z" using q0 by (simp add: Z_def)
  have "Phi (1 / 1000) \<le> 1 / 2 + 1 / 1000 * phi 0" by (rule Phi_upper) simp
  then have "2 * Phi (1 / 1000) - 1 \<le> 2 / 1000 * (1 / q)"
    by (simp add: phi_def q_def)
  then have "(2 * Phi (1 / 1000) - 1) * q \<le> 2 / 1000 * (1 / q) * q"
    using q0 by (intro mult_right_mono) auto
  then have Z2: "Z \<le> 2 / 1000" using q0 by (simp add: Z_def)
  have "(2 / 10 ^ 7) * (2449 / 1000) \<le> (7 / 10 ^ 7 - 1 + e) * q"
    using e q by (intro mult_mono) auto
  then have w1: "4898 / 10000000000 \<le> w" by (simp add: w_def)
  have "(7 / 10 ^ 7 - 1 + e) * q \<le> (7 / 10 ^ 7 - 1 + 2000000 / 2000001) * (2829 / 1000)"
    using e q by (intro mult_mono) auto
  then have w2: "w \<le> 5659 / 10000000000" by (simp add: w_def)
  have t: "ex_t = 1 / 20 - 25 * (Z - w) / e"
  proof -
    have "ex_price (1 / 20) - 7 / 10 ^ 7 = (Z - w) / q"
      using q0 by (simp add: ex_price_first Z_def w_def e_def [symmetric] field_simps)
    moreover have "ex_vega (1 / 20) = e / (25 * q)"
      by (simp add: ex_vega_first_eq e_def q_def)
    ultimately have "(ex_price (1 / 20) - 7 / 10 ^ 7) / ex_vega (1 / 20) = ((Z - w) / q) / (e / (25 * q))"
      by simp
    also have "\<dots> = 25 * (Z - w) / e" using q0 e0 by (simp add: field_simps)
    finally show ?thesis by (simp add: ex_t_def)
  qed
  have "25 * (Z - w) \<le> 25 * (2 / 1000 - 4898 / 10000000000)" using Z2 w1 by simp
  also have "\<dots> \<le> 12497 / 250000 * (1 - 1 / 2000000)" by simp
  also have "\<dots> \<le> 12497 / 250000 * e" using e(1) by (intro mult_left_mono) auto
  finally have "25 * (Z - w) \<le> 12497 / 250000 * e" .
  then have "25 * (Z - w) / e \<le> 12497 / 250000" using e0 by (simp add: field_simps)
  then show "3 / 250000 \<le> ex_t" unfolding t by linarith
  have "99971 / 2000000 * e \<le> 25 * (2 / 1000 * e - 5659 / 10000000000)"
    using e(1) by simp
  also have "\<dots> \<le> 25 * (Z - w)" using Z1 w2 by simp
  finally have "99971 / 2000000 * e \<le> 25 * (Z - w)" .
  then have "99971 / 2000000 \<le> 25 * (Z - w) / e" using e0 by (simp add: field_simps)
  then show "ex_t \<le> 29 / 2000000" unfolding t by linarith
qed

text \<open>The run of the solver on the example.\<close>

lemma ex_t_pos: "0 < ex_t"
  using ex_t_bounds(1) by simp

section \<open>The example of a negative result: the run of the solver\<close>

lemma ex_first_error: "ex_price (1 / 20) - 7 / 10 ^ 7 = (1 / 20 - ex_t) * ex_vega (1 / 20)"
proof -
  have "0 < ex_vega (1 / 20)" using ex_vega_first(1) by simp
  then show ?thesis by (simp add: ex_t_def)
qed

lemma ex_first_error_bounds:
  "good_bound \<le> ex_price (1 / 20) - 7 / 10 ^ 7" "ex_price (1 / 20) - 7 / 10 ^ 7 < bad_bound"
proof -
  have "(1 / 20 - 29 / 2000000) * (1 / 100) \<le> (1 / 20 - ex_t) * ex_vega (1 / 20)"
    using ex_t_bounds(2) ex_vega_first(1) by (intro mult_mono) auto
  then show "good_bound \<le> ex_price (1 / 20) - 7 / 10 ^ 7"
    unfolding ex_first_error by (simp add: good_bound_def)
  have "(1 / 20 - ex_t) * ex_vega (1 / 20) \<le> (1 / 20) * (1 / 50)"
    using ex_t_pos ex_t_bounds(2) ex_vega_first by (intro mult_mono) auto
  then show "ex_price (1 / 20) - 7 / 10 ^ 7 < bad_bound"
    unfolding ex_first_error by (simp add: bad_bound_def)
qed

lemma ex_first_pass:
  "loop_pass 2 2 (1 / 2500) (1 / 800) (7 / 10 ^ 7) (1 / 20) 1 =
     Again ex_t (ex_price (1 / 20) - 7 / 10 ^ 7)"
proof -
  have v: "\<not> ex_vega (1 / 20) < 1 / 1000" using ex_vega_first(1) by simp
  have a: "\<bar>ex_price (1 / 20) - 7 / 10 ^ 7\<bar> = ex_price (1 / 20) - 7 / 10 ^ 7"
    using ex_first_error_bounds(1) by (simp add: good_bound_def)
  have "loop_pass 2 2 (1 / 2500) (1 / 800) (7 / 10 ^ 7) (1 / 20) 1 =
      Again (1 / 20 - (ex_price (1 / 20) - 7 / 10 ^ 7) / ex_vega (1 / 20))
        \<bar>ex_price (1 / 20) - 7 / 10 ^ 7\<bar>"
    unfolding loop_pass_valid [of 2 2 "1 / 2500", simplified]
    using v by (simp add: ex_price_valid ex_vega_valid good_bound_def bad_bound_def)
  then show ?thesis unfolding a ex_t_def .
qed

lemma ex_second_pass:
  "loop_pass 2 2 (1 / 2500) (1 / 800) (7 / 10 ^ 7) ex_t (ex_price (1 / 20) - 7 / 10 ^ 7) =
     Again (ex_t - (ex_price ex_t - 7 / 10 ^ 7) / ex_vega ex_t) \<bar>ex_price ex_t - 7 / 10 ^ 7\<bar>"
proof -
  have e: "good_bound \<le> ex_price (1 / 20) - 7 / 10 ^ 7"
      "\<not> bad_bound \<le> ex_price (1 / 20) - 7 / 10 ^ 7"
    using ex_first_error_bounds by simp_all
  have v: "\<not> ex_vega ex_t < 1 / 1000" using ex_vega_second [OF ex_t_bounds] by simp
  show ?thesis
    unfolding loop_pass_valid [of 2 2 "1 / 2500", simplified]
    using e v ex_t_pos by (simp add: ex_price_valid ex_vega_valid)
qed

lemma ex_error:
  "ex_t * ex_vega ex_t < ex_price ex_t - 7 / 10 ^ 7"
  "ex_price ex_t - 7 / 10 ^ 7 < good_bound"
proof -
  have eq: "ex_price ex_t - 7 / 10 ^ 7 =
      ex_price ex_t - ex_price (1 / 20) + (1 / 20 - ex_t) * ex_vega (1 / 20)"
    using ex_first_error by simp
  have "ex_t * ex_vega ex_t < ex_t * (ex_vega (1 / 20) - ex_vega (2 * ex_t))"
    using ex_vega_gap [OF ex_t_bounds] ex_t_pos by (intro mult_strict_left_mono) auto
  also have "\<dots> \<le> ex_price ex_t - ex_price (1 / 20) + (1 / 20 - ex_t) * ex_vega (1 / 20)"
    by (rule ex_error_lower) (use ex_t_pos ex_t_bounds(2) in simp_all)
  finally show "ex_t * ex_vega ex_t < ex_price ex_t - 7 / 10 ^ 7" unfolding eq .
  have "ex_price ex_t - ex_price (1 / 20) + (1 / 20 - ex_t) * ex_vega (1 / 20) \<le>
      ex_vega (1 / 20) / (3200000000 * ex_t)"
    by (rule ex_error_upper) (use ex_t_pos ex_t_bounds(2) in simp_all)
  also have "\<dots> \<le> (1 / 50) / (3200000000 * (3 / 250000))"
    using ex_vega_first ex_t_bounds(1) by (intro frac_le mult_mono) auto
  also have "\<dots> < good_bound" by (simp add: good_bound_def)
  finally show "ex_price ex_t - 7 / 10 ^ 7 < good_bound" unfolding eq .
qed

lemma ex_third_pass:
  "loop_pass 2 2 (1 / 2500) (1 / 800) (7 / 10 ^ 7)
     (ex_t - (ex_price ex_t - 7 / 10 ^ 7) / ex_vega ex_t) \<bar>ex_price ex_t - 7 / 10 ^ 7\<bar> =
   Exit True (ex_t - (ex_price ex_t - 7 / 10 ^ 7) / ex_vega ex_t)"
proof -
  have "0 < ex_t * ex_vega ex_t"
    using ex_t_pos ex_vega_second [OF ex_t_bounds] by (intro mult_pos_pos) auto
  with ex_error have "\<bar>ex_price ex_t - 7 / 10 ^ 7\<bar> < good_bound" by simp
  then show ?thesis
    unfolding loop_pass_valid [of 2 2 "1 / 2500", simplified] by simp
qed

lemma ex_negative: "ex_t - (ex_price ex_t - 7 / 10 ^ 7) / ex_vega ex_t < 0"
proof -
  have v: "0 < ex_vega ex_t" using ex_vega_second [OF ex_t_bounds] by simp
  have "ex_t * ex_vega ex_t / ex_vega ex_t < (ex_price ex_t - 7 / 10 ^ 7) / ex_vega ex_t"
    using ex_error(1) v by (rule divide_strict_right_mono)
  then show ?thesis using v by simp
qed

lemma ex_newton:
  "newton 2 2 (1 / 2500) (1 / 800) (7 / 10 ^ 7) (1 / 20) 1 =
     Some (Inr (True, ex_t - (ex_price ex_t - 7 / 10 ^ 7) / ex_vega ex_t))"
  by (simp only: newton_again [OF ex_first_pass] newton_again [OF ex_second_pass]
        newton_exit [OF ex_third_pass])

section \<open>When the search does not return\<close>


section \<open>The example of an oscillation: the price and the vega\<close>
























section \<open>The example of an oscillation: the cycle\<close>












section \<open>The claims\<close>




text \<open>
  C2.  For \<open>P > 0\<close>, \<open>X > 0\<close>, \<open>T > 0\<close> and \<open>s > 0\<close>, \<open>d\<close> returns
  \<open>d1 = (ln (P / X) + (r + s\<^sup>2 / 2) T) / (s sqrt T)\<close> and \<open>d2 = d1 - s sqrt T\<close>, and
  \<open>call\<close> returns \<open>P Phi(d1) - X exp (- r T) Phi(d2)\<close>, both without an error; and
  \<open>Phi\<close> is the standard normal distribution function: its derivative is the standard
  normal density everywhere, and it is \<open>1/2\<close> at \<open>0\<close>.  The functions return
  values only.
\<close>

theorem C2_pricing_formulas:
  assumes "0 < P" "0 < X" "0 < T" "0 < s"
  shows "d P X T r s =
           Inr ((ln (P / X) + (r + s\<^sup>2 / 2) * T) / (s * sqrt T),
                (ln (P / X) + (r + s\<^sup>2 / 2) * T) / (s * sqrt T) - s * sqrt T) \<and>
         call P X T r s =
           Inr (P * Phi ((ln (P / X) + (r + s\<^sup>2 / 2) * T) / (s * sqrt T)) -
                X * exp (- r * T) *
                  Phi ((ln (P / X) + (r + s\<^sup>2 / 2) * T) / (s * sqrt T) - s * sqrt T)) \<and>
         (\<forall>x. (Phi has_real_derivative exp (- (x\<^sup>2) / 2) / sqrt (2 * pi)) (at x)) \<and>
         Phi 0 = 1 / 2"
proof -
  have "\<forall>x. (Phi has_real_derivative exp (- (x\<^sup>2) / 2) / sqrt (2 * pi)) (at x)"
    using Phi_deriv by (simp add: phi_def)
  moreover have "call P X T r s =
           Inr (P * Phi ((ln (P / X) + (r + s\<^sup>2 / 2) * T) / (s * sqrt T)) -
                X * exp (- r * T) *
                  Phi ((ln (P / X) + (r + s\<^sup>2 / 2) * T) / (s * sqrt T) - s * sqrt T))"
    by (simp add: call_def d_valid [OF assms])
  ultimately show ?thesis using d_valid [OF assms, of r] Phi_0 by blast
qed

text \<open>At \<open>P = X = 100\<close>, \<open>T = 1\<close>, \<open>r = 0.0285\<close>, \<open>s = 0.2\<close>.\<close>

theorem C2_pricing_witness:
  "d 100 100 1 (285 / 10000) (2 / 10) = Inr (2425 / 10000, 425 / 10000) \<and>
   call 100 100 1 (285 / 10000) (2 / 10) =
     Inr (100 * Phi (2425 / 10000) - 100 * exp (- (285 / 10000)) * Phi (425 / 10000))"
  using C2_pricing_formulas [of 100 100 1 "2 / 10" "285 / 10000"]
  by (simp add: power2_eq_square)

text \<open>
  C3 (as amended).  The guesses are \<open>0.05, 0.075, 0.1, \<dots>, 1.475\<close>: 58 values from
  \<open>0.05\<close> in steps of \<open>0.025\<close>, in increasing order.  They are tried in this order,
  and the solver returns the result of the first guess whose loop ends with
  \<open>success\<close>, whatever the later guesses would give.
\<close>

theorem C3_guess_sequence:
  "s_list = map (\<lambda>k. 0.05 + 0.025 * real k) [0 ..< 58] \<and>
   length s_list = 58 \<and> hd s_list = 0.05 \<and> last s_list = 1.475 \<and>
   sorted_wrt (<) s_list \<and>
   (\<forall>pre g post v.
      s_list = pre @ g # post \<longrightarrow>
      (\<forall>g' \<in> set pre. \<exists>s'. newton P X T r C g' 1 = Some (Inr (False, s'))) \<longrightarrow>
      newton P X T r C g 1 = Some (Inr (True, v)) \<longrightarrow>
      call_iv P X T r C = Some (Inr v))"
proof -
  have 1: "s_list = map (\<lambda>k. 0.05 + 0.025 * real k) [0 ..< 58]" by (rule s_list_closed)
  have 2: "length s_list = 58" by (simp add: 1)
  have 3: "hd s_list = 0.05" by (subst s_list_Cons) simp
  have 4: "last s_list = 1.475" by (simp add: 1 last_map)
  have 5: "sorted_wrt (<) s_list"
    unfolding 1 by (simp add: sorted_wrt_map sorted_wrt_upt [unfolded sorted_wrt_iff_nth_less] sorted_wrt_iff_nth_less)
  have 6: "call_iv P X T r C = Some (Inr v)"
    if "s_list = pre @ g # post"
      "\<forall>g' \<in> set pre. \<exists>s'. newton P X T r C g' 1 = Some (Inr (False, s'))"
      "newton P X T r C g 1 = Some (Inr (True, v))" for pre g post v
    using guesses_first_success [OF that(2,3), of post] that(1) by (simp add: call_iv_def)
  from 1 2 3 4 5 6 show ?thesis by blast
qed

text \<open>
  At \<open>P = X = 100\<close>, \<open>T = 1\<close>, \<open>r = - 0.3\<close> and the model price at volatility
  \<open>0.075\<close>, the first guess is given up and the second is returned.
\<close>

theorem C3_second_guess_witness:
  "s_list = [5 / 100] @ 75 / 1000 # drop 2 s_list \<and>
   newton 100 100 1 (- 3 / 10) (price 100 100 1 (- 3 / 10) (75 / 1000)) (5 / 100) 1 =
     Some (Inr (False, 5 / 100)) \<and>
   newton 100 100 1 (- 3 / 10) (price 100 100 1 (- 3 / 10) (75 / 1000)) (75 / 1000) 1 =
     Some (Inr (True, 75 / 1000)) \<and>
   call_iv 100 100 1 (- 3 / 10) (price 100 100 1 (- 3 / 10) (75 / 1000)) = Some (Inr (75 / 1000))"
proof -
  let ?C = "price 100 100 1 (- 3 / 10) (75 / 1000)"
  have "loop_pass 100 100 1 (- 3 / 10) ?C (5 / 100) 1 = Exit False (5 / 100)"
    using vega_example_first by (simp add: loop_pass_valid good_le_1)
  then have a: "newton 100 100 1 (- 3 / 10) ?C (5 / 100) 1 = Some (Inr (False, 5 / 100))"
    by (rule newton_exit)
  have "newton 100 100 1 (- 3 / 10) ?C (75 / 1000) 1 =
      Some (Inr (True, 75 / 1000 - (?C - ?C) / vega 100 100 1 (- 3 / 10) (75 / 1000)))"
    by (rule newton_converged [OF _ _ _ good_le_1 one_less_bad _ vega_example_second])
       (simp_all add: good_bound_def)
  then have b: "newton 100 100 1 (- 3 / 10) ?C (75 / 1000) 1 = Some (Inr (True, 75 / 1000))"
    by simp
  have pre: "\<forall>g' \<in> set [5 / 100]. \<exists>s'. newton 100 100 1 (- 3 / 10) ?C g' 1 = Some (Inr (False, s'))"
  proof
    fix g' :: real
    assume "g' \<in> set [5 / 100]"
    then have g': "g' = 5 / 100" by simp
    show "\<exists>s'. newton 100 100 1 (- 3 / 10) ?C g' 1 = Some (Inr (False, s'))"
      unfolding g' using a by (rule exI)
  qed
  from C3_guess_sequence [of 100 100 1 "- 3 / 10" ?C] s_list_Cons2 pre b
  have "call_iv 100 100 1 (- 3 / 10) ?C = Some (Inr (75 / 1000))" by blast
  with a b s_list_Cons2 show ?thesis by blast
qed

text \<open>
  C3 as stated fails: the second guess is \<open>0.075\<close>, not \<open>0.055\<close>, and the last is
  \<open>1.475\<close>, not \<open>1.50\<close>.
\<close>

theorem C3_counterexample:
  "s_list ! 1 = 0.075 \<and> s_list ! 1 \<noteq> 0.055 \<and> last s_list = 1.475 \<and> last s_list \<noteq> 1.50"
  by (simp add: s_list_closed last_map)




text \<open>
  C5 (as amended).  In a pass of the loop for a guess, \<open>s \<le> 0\<close> and the explosion
  bound are tested before pricing and \<open>vega < 0.001\<close> before the Newton update, and each
  ends the pass with \<open>success = False\<close> at the unchanged \<open>s\<close>.  The explosion bound is
  tested on \<open>err\<close>, the absolute price error of the pass before (\<open>1\<close> in the first
  pass): a price error of at least \<open>100\<close> at the current candidate is met by the test of
  the next pass, after the update.  In all four cases the loop for this guess ends with
  \<open>success = False\<close> and without an error, and the search goes on with the next guess.
\<close>

theorem C5_divergence_aborts_guess:
  assumes "0 < P" "0 < X" "0 < T" and "good_bound \<le> err"
    and "bad_bound \<le> err \<or> s \<le> 0 \<or> vega P X T r s < 0.001 \<or>
         bad_bound \<le> \<bar>price P X T r s - C\<bar>"
  shows "(bad_bound \<le> err \<or> s \<le> 0 \<or> vega P X T r s < 0.001 \<longrightarrow>
            loop_pass P X T r C s err = Exit False s) \<and>
         (\<exists>s'. newton P X T r C s err = Some (Inr (False, s'))) \<and>
         (err = 1 \<longrightarrow> guesses P X T r C (s # ss) = guesses P X T r C ss)"
proof -
  have a: "loop_pass P X T r C s err = Exit False s"
    if "bad_bound \<le> err \<or> s \<le> 0 \<or> vega P X T r s < 0.001"
    using that assms(4) by (auto simp: loop_pass_valid [OF assms(1-3)])
  have b: "\<exists>s'. newton P X T r C s err = Some (Inr (False, s'))"
  proof (cases "bad_bound \<le> err \<or> s \<le> 0 \<or> vega P X T r s < 0.001")
    case True
    from newton_exit [OF a [OF True]] show ?thesis by blast
  next
    case False
    with assms(5) have "bad_bound \<le> \<bar>price P X T r s - C\<bar>" by blast
    from newton_explosion(2) [OF assms(1-4) _ _ _ this] False show ?thesis by auto
  qed
  from b have "guesses P X T r C (s # ss) = guesses P X T r C ss" if "err = 1"
    using that by auto
  with a b show ?thesis by blast
qed

theorem C5_divergence_witness:
  "good_bound \<le> 1 \<and> vega (1 / 1000) 1 1 0 (5 / 100) < 0.001 \<and>
   loop_pass (1 / 1000) 1 1 0 5 (5 / 100) 1 = Exit False (5 / 100) \<and>
   (\<exists>s'. newton (1 / 1000) 1 1 0 5 (5 / 100) 1 = Some (Inr (False, s'))) \<and>
   guesses (1 / 1000) 1 1 0 5 (5 / 100 # tl s_list) = guesses (1 / 1000) 1 1 0 5 (tl s_list)"
proof -
  have f: "vega (1 / 1000) 1 1 0 (5 / 100) < 0.001"
    by (rule vega_flat) simp_all
  from f C5_divergence_aborts_guess [of "1 / 1000" 1 1 1 "5 / 100" 0 5 "tl s_list"]
  show ?thesis by (simp add: good_le_1)
qed

text \<open>
  C5 as stated fails: at \<open>P = X = 100\<close>, \<open>T = 1\<close>, \<open>r = 0.01\<close> and the observed
  price \<open>1000\<close>, the absolute price error at the first guess \<open>0.05\<close> is at least
  \<open>100\<close>, and the pass does the Newton update and goes round again.
\<close>

theorem C5_explosion_counterexample:
  "bad_bound \<le> \<bar>price 100 100 1 (1 / 100) (5 / 100) - 1000\<bar> \<and>
   loop_pass 100 100 1 (1 / 100) 1000 (5 / 100) 1 =
     Again (5 / 100 - (price 100 100 1 (1 / 100) (5 / 100) - 1000) /
                      vega 100 100 1 (1 / 100) (5 / 100))
       \<bar>price 100 100 1 (1 / 100) (5 / 100) - 1000\<bar>"
proof -
  have b: "bad_bound \<le> \<bar>price 100 100 1 (1 / 100) (5 / 100) - 1000\<bar>"
    using price_example_far by (simp add: bad_bound_def)
  from newton_explosion(1) [OF _ _ _ good_le_1 one_less_bad _ vega_example_far b] b
  show ?thesis by simp
qed

text \<open>
  C6.  When the loop of every guess of \<open>s_list\<close> ends with \<open>success = False\<close>,
  whatever ended it, \<open>call_iv\<close> returns \<open>0\<close>, and no error.
\<close>

theorem C6_exhausted_returns_zero:
  assumes "\<forall>g \<in> set s_list. \<exists>s'. newton P X T r C g 1 = Some (Inr (False, s'))"
  shows "call_iv P X T r C = Some (Inr 0)"
  unfolding call_iv_def using assms by (rule guesses_all_fail)

theorem C6_exhausted_witness:
  "list_all (\<lambda>g. \<exists>s'. newton (1 / 1000) 1 1 0 5 g 1 = Some (Inr (False, s'))) s_list \<and>
   call_iv (1 / 1000) 1 1 0 5 = Some (Inr 0)"
proof -
  have "newton (1 / 1000) 1 1 0 5 g 1 = Some (Inr (False, g))" if "g \<in> set s_list" for g
    by (rule newton_flat) (use s_list_pos [OF that] in simp_all)
  then have h: "\<forall>g \<in> set s_list. \<exists>s'. newton (1 / 1000) 1 1 0 5 g 1 = Some (Inr (False, s'))"
    by blast
  from h C6_exhausted_returns_zero [OF h] show ?thesis by (simp add: list_all_iff)
qed

text \<open>
  C7 fails on the code.  At \<open>P = X = 2\<close>, \<open>T = 0.0004\<close>, \<open>r = 0.00125\<close> and the
  observed price \<open>0.0000007\<close>, the loop for the first guess ends with \<open>success\<close>
  and \<open>call_iv\<close> returns a negative value.  The second candidate, between
  \<open>0.000012\<close> and \<open>0.0000145\<close>, has a price error below \<open>0.000001\<close> and a vega
  of at least \<open>0.001\<close>; the update from it is below \<open>0\<close>, the loop condition ends
  the loop, and nothing tests the value that is returned.
\<close>

theorem C7_converged_negative:
  "\<exists>v. newton 2 2 (1 / 2500) (1 / 800) (7 / 10 ^ 7) (5 / 100) 1 = Some (Inr (True, v)) \<and>
       call_iv 2 2 (1 / 2500) (1 / 800) (7 / 10 ^ 7) = Some (Inr v) \<and> v < 0"
proof -
  let ?v = "ex_t - (ex_price ex_t - 7 / 10 ^ 7) / ex_vega ex_t"
  have n: "newton 2 2 (1 / 2500) (1 / 800) (7 / 10 ^ 7) (5 / 100) 1 = Some (Inr (True, ?v))"
    using ex_newton by simp
  have "call_iv 2 2 (1 / 2500) (1 / 800) (7 / 10 ^ 7) = Some (Inr ?v)"
    by (rule call_iv_first_guess [OF n])
  with n ex_negative show ?thesis by blast
qed




text \<open>
  C9.  For \<open>P > 0\<close>, \<open>X > 0\<close>, \<open>T > 0\<close>: the pricing functions have no failing
  operation at a positive volatility; a pass of the loop with \<open>s \<le> 0\<close> ends before
  it prices anything; the Newton update is made only at \<open>s > 0\<close> with
  \<open>vega \<ge> 0.001\<close>; so no pass, no loop and no run of \<open>call_iv\<close> ends in an error,
  a division by zero in particular.
\<close>

theorem C9_no_division_by_zero:
  assumes "0 < P" "0 < X" "0 < T"
  shows "(0 < s \<longrightarrow> (\<exists>d1 d2. d P X T r s = Inr (d1, d2)) \<and> (\<exists>c. call P X T r s = Inr c)) \<and>
         (s \<le> 0 \<longrightarrow> loop_pass P X T r C s err = Exit (err < good_bound) s) \<and>
         (\<forall>s' err'. loop_pass P X T r C s err = Again s' err' \<longrightarrow>
            0 < s \<and> 0.001 \<le> vega P X T r s \<and>
            s' = s - (price P X T r s - C) / vega P X T r s) \<and>
         loop_pass P X T r C s err \<noteq> Fail e \<and>
         newton P X T r C s err \<noteq> Some (Inl e) \<and>
         call_iv P X T r C \<noteq> Some (Inl e)"
proof -
  have 1: "(\<exists>d1 d2. d P X T r s = Inr (d1, d2)) \<and> (\<exists>c. call P X T r s = Inr c)" if "0 < s"
    using d_valid [OF assms that, of r] call_valid [OF assms that, of r] by simp
  have 2: "loop_pass P X T r C s err = Exit (err < good_bound) s" if "s \<le> 0"
    using that by (auto simp: loop_pass_valid [OF assms])
  have 3: "0 < s \<and> 0.001 \<le> vega P X T r s \<and> s' = s - (price P X T r s - C) / vega P X T r s"
    if "loop_pass P X T r C s err = Again s' err'" for s' err'
    using that by (simp add: loop_pass_valid [OF assms] split: if_splits)
  have 4: "loop_pass P X T r C s err \<noteq> Fail e"
    by (simp add: loop_pass_valid [OF assms])
  have 5: "newton P X T r C s err \<noteq> Some (Inl e)" by (rule newton_no_error [OF assms])
  have 6: "call_iv P X T r C \<noteq> Some (Inl e)"
    unfolding call_iv_def by (rule guesses_no_error [OF assms])
  from 1 2 3 4 5 6 show ?thesis by blast
qed

theorem C9_witness:
  "(\<exists>d1 d2. d 100 100 1 0 (5 / 100) = Inr (d1, d2)) \<and>
   (\<exists>c. call 100 100 1 0 (5 / 100) = Inr c) \<and>
   loop_pass 100 100 1 0 5 (- 1) 1 = Exit False (- 1) \<and>
   loop_pass 100 100 1 0 5 (5 / 100) 1 =
     Again (5 / 100 - (price 100 100 1 0 (5 / 100) - 5) / vega 100 100 1 0 (5 / 100))
       \<bar>price 100 100 1 0 (5 / 100) - 5\<bar> \<and>
   0.001 \<le> vega 100 100 1 0 (5 / 100) \<and>
   loop_pass 100 100 1 0 5 (5 / 100) 1 \<noteq> Fail ZeroDivision \<and>
   newton 100 100 1 0 5 (5 / 100) 1 \<noteq> Some (Inl ZeroDivision) \<and>
   call_iv 100 100 1 0 5 \<noteq> Some (Inl ZeroDivision)"
proof -
  have a: "loop_pass 100 100 1 0 5 (5 / 100) 1 =
     Again (5 / 100 - (price 100 100 1 0 (5 / 100) - 5) / vega 100 100 1 0 (5 / 100))
       \<bar>price 100 100 1 0 (5 / 100) - 5\<bar>"
    using vega_example by (simp add: loop_pass_valid good_bound_def bad_bound_def)
  have p: "(0::real) < 100" "(0::real) < 1" by simp_all
  note pos = C9_no_division_by_zero [OF p(1) p(1) p(2), of "5 / 100" 0 5 1 ZeroDivision]
  note neg = C9_no_division_by_zero [OF p(1) p(1) p(2), of "- 1" 0 5 1 ZeroDivision]
  from neg have n: "loop_pass 100 100 1 0 5 (- 1) 1 = Exit False (- 1)"
    by (simp add: good_bound_def)
  from pos a have v: "0.001 \<le> vega 100 100 1 0 (5 / 100)" by blast
  from pos have d: "(\<exists>d1 d2. d 100 100 1 0 (5 / 100) = Inr (d1, d2)) \<and>
     (\<exists>c. call 100 100 1 0 (5 / 100) = Inr c)" by simp
  from pos a n v d show ?thesis by blast
qed

end
